theory Spec2Isabelle
  imports Main
begin

section \<open>Characters and decimal output\<close>

text \<open>
  The server works on \<open>std::string\<close>, a sequence of bytes; \<open>string\<close> (a list of
  8-bit \<open>char\<close>) is the same data. The control characters the code names are
  abbreviations of their byte values.
\<close>

abbreviation NUL :: char where "NUL \<equiv> CHR 0x00"
abbreviation LF :: char where "LF \<equiv> CHR 0x0A"
abbreviation CR :: char where "CR \<equiv> CHR 0x0D"

text \<open>
  \<open>std::isspace\<close> in the classic locale (the program never installs another one):
  space, horizontal tab, line feed, vertical tab, form feed, carriage return.
\<close>

definition isspace :: "char \<Rightarrow> bool" where
  "isspace c \<longleftrightarrow>
     c = CHR '' '' \<or> c = CHR 0x09 \<or> c = LF \<or> c = CHR 0x0B \<or> c = CHR 0x0C \<or> c = CR"

text \<open>
  \<open>operator<<\<close> of an output stream on an \<open>int\<close> and on a \<open>size_t\<close>: decimal digits,
  most significant first, no padding, a leading minus sign for a negative \<open>int\<close>.
\<close>

definition digit_char :: "nat \<Rightarrow> char" where
  "digit_char d = ''0123456789'' ! d"

fun show_nat :: "nat \<Rightarrow> string" where
  "show_nat n = (if n < 10 then [digit_char n] else show_nat (n div 10) @ [digit_char (n mod 10)])"

declare show_nat.simps [simp del]

definition show_int :: "int \<Rightarrow> string" where
  "show_int i = (if i < 0 then CHR ''-'' # show_nat (nat (- i)) else show_nat (nat i))"

text \<open>Reading a decimal numeral back, to say what value a printed number denotes.\<close>

definition digit_val :: "char \<Rightarrow> nat option" where
  "digit_val c = map_of (zip ''0123456789'' [0 ..< 10]) c"

fun read_nat_acc :: "nat \<Rightarrow> string \<Rightarrow> nat option" where
  "read_nat_acc acc [] = Some acc"
| "read_nat_acc acc (c # cs) =
     (case digit_val c of None \<Rightarrow> None | Some d \<Rightarrow> read_nat_acc (10 * acc + d) cs)"

definition read_nat :: "string \<Rightarrow> nat option" where
  "read_nat s = (if s = [] then None else read_nat_acc 0 s)"

definition read_int :: "string \<Rightarrow> int option" where
  "read_int s =
     (case s of
        [] \<Rightarrow> None
      | c # cs \<Rightarrow> if c = CHR ''-'' then map_option (\<lambda>n. - int n) (read_nat cs)
                  else map_option int (read_nat s))"

section \<open>Input streams\<close>

text \<open>
  \<open>std::istringstream\<close> as the code uses it: the characters not yet read and the two
  state bits that its reads set. \<open>good\<close> is \<open>std::ios::good()\<close>; the conversion of a
  stream to \<open>bool\<close> in a loop condition is \<open>\<not> failbit\<close>.
\<close>

record istream =
  buf :: string
  eofbit :: bool
  failbit :: bool

definition istringstream :: "string \<Rightarrow> istream" where
  "istringstream s = \<lparr>buf = s, eofbit = False, failbit = False\<rparr>"

definition good :: "istream \<Rightarrow> bool" where
  "good s \<longleftrightarrow> \<not> eofbit s \<and> \<not> failbit s"

text \<open>
  \<open>std::getline(stream, line)\<close>. On a stream that is not good the sentry sets
  \<open>failbit\<close> and \<open>line\<close> keeps its value. Otherwise \<open>line\<close> is erased and characters
  are taken up to the next line feed, which is consumed and not stored; running into the
  end of the data sets \<open>eofbit\<close>, and taking no character at all sets \<open>failbit\<close> too.
\<close>

definition getline :: "istream \<Rightarrow> string \<Rightarrow> istream \<times> string" where
  "getline s line =
     (if \<not> good s then (s\<lparr>failbit := True\<rparr>, line)
      else if buf s = [] then (s\<lparr>eofbit := True, failbit := True\<rparr>, [])
      else if LF \<in> set (buf s)
        then (s\<lparr>buf := tl (dropWhile (\<lambda>c. c \<noteq> LF) (buf s))\<rparr>, takeWhile (\<lambda>c. c \<noteq> LF) (buf s))
        else (s\<lparr>buf := [], eofbit := True\<rparr>, buf s))"

text \<open>
  \<open>stream >> str\<close> for a \<open>std::string\<close>. The sentry fails on a stream that is not good,
  and when skipping leading white space reaches the end of the data; in both cases
  \<open>str\<close> keeps its value. Otherwise \<open>str\<close> becomes the characters up to the next white
  space, which stays unread, or up to the end of the data, which sets \<open>eofbit\<close>.
\<close>

definition extract_string :: "istream \<Rightarrow> string \<Rightarrow> istream \<times> string" where
  "extract_string s str =
     (if \<not> good s then (s\<lparr>failbit := True\<rparr>, str)
      else let b = dropWhile isspace (buf s) in
        if b = [] then (s\<lparr>buf := [], eofbit := True, failbit := True\<rparr>, str)
        else let r = dropWhile (\<lambda>c. \<not> isspace c) b in
          (s\<lparr>buf := r, eofbit := (r = [])\<rparr>, takeWhile (\<lambda>c. \<not> isspace c) b))"

section \<open>The request parser\<close>

type_synonym headers = "string \<rightharpoonup> string"

record HTTPRequest =
  method' :: string
  path :: string
  version :: string
  headers :: headers
  body :: string

text \<open>
  The only exception the parser can raise: \<open>std::string::substr(pos)\<close> throws
  \<open>std::out_of_range\<close> when \<open>pos\<close> is greater than the size of the string.
\<close>

datatype error = out_of_range

definition substr_from :: "string \<Rightarrow> nat \<Rightarrow> error + string" where
  "substr_from s pos = (if pos > length s then Inl out_of_range else Inr (drop pos s))"

text \<open>\<open>line.find(':')\<close>: the index of the first colon, \<open>None\<close> for \<open>npos\<close>.\<close>

definition find_colon :: "string \<Rightarrow> nat option" where
  "find_colon line =
     (if CHR '':'' \<in> set line then Some (length (takeWhile (\<lambda>c. c \<noteq> CHR '':'') line)) else None)"

text \<open>The request line, lines 71 to 74: three chained extractions from a stream on the line.\<close>

definition parse_request_line :: "string \<Rightarrow> string \<times> string \<times> string" where
  "parse_request_line line =
     (let lineStream = istringstream line;
          (lineStream, m) = extract_string lineStream [];
          (lineStream, p) = extract_string lineStream [];
          (lineStream, v) = extract_string lineStream []
      in (m, p, v))"

text \<open>The body of the header loop, lines 78 to 87, on one line.\<close>

definition header_line :: "string \<Rightarrow> headers \<Rightarrow> error + headers" where
  "header_line line hs =
     (case find_colon line of
        None \<Rightarrow> Inr hs
      | Some colon \<Rightarrow>
          (case substr_from line (colon + 2) of
             Inl e \<Rightarrow> Inl e
           | Inr v \<Rightarrow>
               let key = take colon line;
                   val = (if v \<noteq> [] \<and> last v = CR then butlast v else v)
               in Inr (hs(key \<mapsto> val))))"

text \<open>
  The header loop, lines 77 to 88. It ends when \<open>getline\<close> fails or delivers a line that
  is exactly one carriage return; an exception of a line ends the whole parse.
\<close>

function parse_headers :: "istream \<Rightarrow> string \<Rightarrow> headers \<Rightarrow> error + (istream \<times> string \<times> headers)" where
  "parse_headers s line hs =
     (case getline s line of (s', line') \<Rightarrow>
        if failbit s' \<or> line' = [CR] then Inr (s', line', hs)
        else (case header_line line' hs of
                Inl e \<Rightarrow> Inl e
              | Inr hs' \<Rightarrow> parse_headers s' line' hs'))"
  by pat_completeness auto

lemma tl_dropWhile_shorter:
  assumes "s \<noteq> []"
  shows "length (tl (dropWhile P s)) < length s"
proof -
  from assms obtain n where n: "length s = Suc n"
    by (cases s) auto
  have "length (dropWhile P s) \<le> length s"
    by (rule length_dropWhile_le)
  with n show ?thesis by simp
qed

lemma getline_shorter:
  assumes "(s', line') = getline s line" and "\<not> failbit s'"
  shows "length (buf s') < length (buf s)"
  using assms tl_dropWhile_shorter [of "buf s" "\<lambda>c. c \<noteq> LF"]
  by (auto simp: getline_def good_def simp del: length_tl split: if_splits)

termination parse_headers
  by (relation "measure (\<lambda>(s, line, hs). length (buf s))") (auto intro: getline_shorter)

declare parse_headers.simps [simp del]

text \<open>The body loop, lines 91 to 98: the remaining lines, joined again by line feeds.\<close>

function parse_body :: "istream \<Rightarrow> string \<Rightarrow> string \<Rightarrow> string" where
  "parse_body s line bodyStream =
     (case getline s line of (s', line') \<Rightarrow>
        if failbit s' then bodyStream
        else parse_body s' line'
               (bodyStream @ line' @ (if \<not> eofbit s' then [LF] else [])))"
  by pat_completeness auto

termination parse_body
  by (relation "measure (\<lambda>(s, line, b). length (buf s))") (auto intro: getline_shorter)

declare parse_body.simps [simp del]

definition parseRequest :: "string \<Rightarrow> error + HTTPRequest" where
  "parseRequest request =
     (case getline (istringstream request) [] of (stream, line) \<Rightarrow>
        let (m, p, v) = (if \<not> failbit stream then parse_request_line line else ([], [], []))
        in (case parse_headers stream line Map.empty of
              Inl e \<Rightarrow> Inl e
            | Inr (stream', line', hs) \<Rightarrow>
                Inr \<lparr>method' = m, path = p, version = v, headers = hs,
                     body = parse_body stream' line' []\<rparr>))"

section \<open>The response builder\<close>

text \<open>
  \<open>createResponse\<close>, lines 104 to 115. The output string stream is the string written
  so far; every statement of the source appends to it.
\<close>

definition createResponse :: "int \<Rightarrow> string \<Rightarrow> string \<Rightarrow> string \<Rightarrow> string" where
  "createResponse status_code status_msg content content_type =
     (let response = [];
          response = response @ ''HTTP/1.1 '' @ show_int status_code @ '' '' @ status_msg @ [CR, LF];
          response = response @ ''Content-Type: '' @ content_type @ [CR, LF];
          response = response @ ''Content-Length: '' @ show_nat (length content) @ [CR, LF];
          response = response @ ''Connection: close'' @ [CR, LF];
          response = response @ [CR, LF];
          response = response @ content
      in response)"

section \<open>The route table\<close>

text \<open>
  \<open>std::map\<close> from the path to the handler. A handler is a function from the parsed
  headers to the body of the response; \<open>addRoute\<close> is \<open>routes[path] = handler\<close>.
\<close>

type_synonym handler = "headers \<Rightarrow> string"

type_synonym routes = "string \<rightharpoonup> handler"

definition addRoute :: "routes \<Rightarrow> string \<Rightarrow> handler \<Rightarrow> routes" where
  "addRoute rts p h = rts(p \<mapsto> h)"

section \<open>The connection handler\<close>

text \<open>
  What the handler does to its socket: the payload of every \<open>send\<close>, in order, and
  the number of calls of \<open>closeSocket\<close>.
\<close>

record socket =
  sent :: "string list"
  closes :: nat

definition send :: "socket \<Rightarrow> string \<Rightarrow> socket" where
  "send sock bytes = sock\<lparr>sent := sent sock @ [bytes]\<rparr>"

definition closeSocket :: "socket \<Rightarrow> socket" where
  "closeSocket sock = sock\<lparr>closes := closes sock + 1\<rparr>"

text \<open>
  The outcome of the one \<open>recv\<close> call: an error (the call returns \<open>-1\<close>), the peer's
  orderly shutdown (it returns \<open>0\<close>), or the bytes stored at the start of the buffer (it
  returns their number, at most \<open>BUFFER_SIZE - 1\<close>).
\<close>

datatype recv_result = recv_error | recv_shutdown | recv_data string

fun bytes_received :: "recv_result \<Rightarrow> int" where
  "bytes_received recv_error = - 1"
| "bytes_received recv_shutdown = 0"
| "bytes_received (recv_data bs) = int (length bs)"

fun stored :: "recv_result \<Rightarrow> string" where
  "stored (recv_data bs) = bs"
| "stored _ = []"

text \<open>
  \<open>std::string(const char *)\<close>: the bytes before the first NUL of the array. The handler
  writes a NUL behind the received bytes first, so one is always found.
\<close>

definition c_string :: "string \<Rightarrow> string" where
  "c_string buffer = takeWhile (\<lambda>c. c \<noteq> NUL) buffer"

definition request_str :: "recv_result \<Rightarrow> string" where
  "request_str r = c_string (stored r @ [NUL])"

definition not_found_page :: "string \<Rightarrow> string" where
  "not_found_page p =
     ''<!DOCTYPE html><html><head><title>404 Not Found</title></head>'' @
     ''<body><h1>404 Not Found</h1><p>The requested URL '' @
     p @ '' was not found on this server.</p></body></html>''"

text \<open>
  \<open>handleClient\<close>, lines 118 to 155. The result is the socket as the handler leaves
  it, with \<open>Inr ()\<close> when the handler returns and \<open>Inl e\<close> when the exception \<open>e\<close> of
  the parser leaves it: the handler has no \<open>try\<close> block, so nothing after line 129 runs
  then.
\<close>

definition handleClient :: "routes \<Rightarrow> recv_result \<Rightarrow> socket \<Rightarrow> (error + unit) \<times> socket" where
  "handleClient rts r client_socket =
     (if bytes_received r > 0 then
        (case parseRequest (request_str r) of
           Inl e \<Rightarrow> (Inl e, client_socket)
         | Inr request \<Rightarrow>
             let (response_content, status_code, status_msg) =
                   (case rts (path request) of
                      Some h \<Rightarrow> (h (headers request), 200, ''OK'')
                    | None \<Rightarrow> (not_found_page (path request), 404, ''Not Found''));
                 content_type = ''text/html'';
                 response = createResponse status_code status_msg response_content content_type
             in (Inr (), closeSocket (send client_socket response)))
      else (Inr (), closeSocket client_socket))"

section \<open>The words of the specification\<close>

text \<open>
  The specification speaks of the lines of a request, of the tokens of its first line and
  of \<open>Key: Value\<close> lines. These definitions follow its words; the theorems relate them
  to the stream operations of the code.
\<close>

text \<open>The lines of a text: its pieces between line feeds, a last line feed ending the last line.\<close>

function lines_of :: "string \<Rightarrow> string list" where
  "lines_of s =
     (if s = [] then []
      else takeWhile (\<lambda>c. c \<noteq> LF) s #
           (if LF \<in> set s then lines_of (tl (dropWhile (\<lambda>c. c \<noteq> LF) s)) else []))"
  by pat_completeness auto

termination lines_of
  by (relation "measure length") (auto intro: tl_dropWhile_shorter simp del: length_tl)

declare lines_of.simps [simp del]

text \<open>The tokens of a line: its maximal runs of characters that are not white space.\<close>

function whitespace_tokens :: "string \<Rightarrow> string list" where
  "whitespace_tokens s =
     (if dropWhile isspace s = [] then []
      else takeWhile (\<lambda>c. \<not> isspace c) (dropWhile isspace s) #
           whitespace_tokens (dropWhile (\<lambda>c. \<not> isspace c) (dropWhile isspace s)))"
  by pat_completeness auto

lemma dropWhile_not_shorter:
  assumes "dropWhile P s \<noteq> []"
  shows "length (dropWhile (\<lambda>c. \<not> P c) (dropWhile P s)) < length s"
proof -
  from assms obtain x xs where b: "dropWhile P s = x # xs"
    by (cases "dropWhile P s") auto
  then have "\<not> P x"
    using hd_dropWhile [of P s] by simp
  with b have "length (dropWhile (\<lambda>c. \<not> P c) (dropWhile P s)) \<le> length xs"
    by (simp add: length_dropWhile_le)
  moreover have "length (x # xs) \<le> length s"
    using length_dropWhile_le [of P s] b by simp
  ultimately show ?thesis by simp
qed

termination whitespace_tokens
  by (relation "measure length") (auto intro: dropWhile_not_shorter)

declare whitespace_tokens.simps [simp del]

text \<open>The \<open>i\<close>-th token, the empty string when there are not that many.\<close>

definition token_or_empty :: "string list \<Rightarrow> nat \<Rightarrow> string" where
  "token_or_empty ts i = (if i < length ts then ts ! i else [])"

text \<open>
  A well-formed header line \<open>Key: Value\<close>: the line as \<open>getline\<close> delivers it, with the
  carriage return of its line ending, and its text in the request, with the line feed.
\<close>

definition key_value_line :: "string \<times> string \<Rightarrow> string" where
  "key_value_line kv = fst kv @ '': '' @ snd kv @ [CR]"

definition header_text :: "string \<times> string \<Rightarrow> string" where
  "header_text kv = key_value_line kv @ [LF]"

definition well_formed_header :: "string \<times> string \<Rightarrow> bool" where
  "well_formed_header kv \<longleftrightarrow>
     CHR '':'' \<notin> set (fst kv) \<and> LF \<notin> set (fst kv) \<and> LF \<notin> set (snd kv)"

text \<open>The tokens that extraction still finds on a stream: none when it is not good.\<close>

definition pending :: "istream \<Rightarrow> string list" where
  "pending s = (if good s then whitespace_tokens (buf s) else [])"

text \<open>A line whose first colon is its last character.\<close>

definition colon_last :: "string \<Rightarrow> bool" where
  "colon_last line \<longleftrightarrow> line \<noteq> [] \<and> find_colon line = Some (length line - 1)"

text \<open>
  The header lines of a request: the lines behind the first one, up to the first line
  that is one carriage return.
\<close>

definition header_region :: "string \<Rightarrow> string list" where
  "header_region request = takeWhile (\<lambda>l. l \<noteq> [CR]) (tl (lines_of request))"

text \<open>The header loop on lines that are already split.\<close>

fun header_lines :: "string list \<Rightarrow> headers \<Rightarrow> error + headers" where
  "header_lines [] hs = Inr hs"
| "header_lines (l # ls) hs =
     (if l = [CR] then Inr hs
      else (case header_line l hs of Inl e \<Rightarrow> Inl e | Inr hs' \<Rightarrow> header_lines ls hs'))"

section \<open>Decimal output is read back as the number written\<close>

lemma digit_val_digit_char: "d < 10 \<Longrightarrow> digit_val (digit_char d) = Some d"
proof -
  assume "d < 10"
  then have "d \<in> {0, 1, 2, 3, 4, 5, 6, 7, 8, 9}" by auto
  then show ?thesis
    by (auto simp: digit_val_def digit_char_def upt_rec)
qed

lemma digit_char_not_minus: "d < 10 \<Longrightarrow> digit_char d \<noteq> CHR ''-''"
proof -
  assume "d < 10"
  then have "d \<in> {0, 1, 2, 3, 4, 5, 6, 7, 8, 9}" by auto
  then show ?thesis
    by (auto simp: digit_char_def)
qed

lemma read_nat_acc_snoc:
  "read_nat_acc a (xs @ [c]) =
     (case read_nat_acc a xs of
        None \<Rightarrow> None
      | Some b \<Rightarrow> (case digit_val c of None \<Rightarrow> None | Some d \<Rightarrow> Some (10 * b + d)))"
  by (induction xs arbitrary: a) (auto split: option.splits)

lemma read_nat_acc_show_nat: "read_nat_acc 0 (show_nat n) = Some n"
proof (induction n rule: show_nat.induct)
  case (1 n)
  show ?case
  proof (cases "n < 10")
    case True
    then show ?thesis
      by (subst show_nat.simps) (simp add: digit_val_digit_char)
  next
    case False
    with 1 have "read_nat_acc 0 (show_nat (n div 10)) = Some (n div 10)" by simp
    with False show ?thesis
      by (subst show_nat.simps) (simp add: read_nat_acc_snoc digit_val_digit_char)
  qed
qed

lemma show_nat_not_empty: "show_nat n \<noteq> []"
  by (subst show_nat.simps) simp

lemma hd_show_nat_not_minus: "hd (show_nat n) \<noteq> CHR ''-''"
proof (induction n rule: show_nat.induct)
  case (1 n)
  show ?case
  proof (cases "n < 10")
    case True
    then show ?thesis
      by (subst show_nat.simps) (simp add: digit_char_not_minus)
  next
    case False
    with 1 have "hd (show_nat (n div 10)) \<noteq> CHR ''-''" by simp
    with False show ?thesis
      by (subst show_nat.simps) (simp add: show_nat_not_empty)
  qed
qed

lemma read_nat_show_nat: "read_nat (show_nat n) = Some n"
  by (simp add: read_nat_def show_nat_not_empty read_nat_acc_show_nat)

lemma read_int_show_int: "read_int (show_int i) = Some i"
proof (cases "i < 0")
  case True
  then show ?thesis
    by (simp add: read_int_def show_int_def read_nat_show_nat)
next
  case False
  obtain c cs where s: "show_nat (nat i) = c # cs"
    using show_nat_not_empty [of "nat i"] by (cases "show_nat (nat i)") auto
  with hd_show_nat_not_minus [of "nat i"] have "c \<noteq> CHR ''-''" by simp
  with False s read_nat_show_nat [of "nat i"] show ?thesis
    by (simp add: read_int_def show_int_def)
qed

lemma show_nat_5: "show_nat 5 = ''5''" by code_simp
lemma show_int_200: "show_int 200 = ''200''" by code_simp

section \<open>Streams and lines\<close>

text \<open>
  What \<open>getline\<close> delivers in each state of the stream, and the header loop as a loop
  over the lines of the text that the stream still holds.
\<close>

lemma takeWhile_upto: "c \<notin> set l \<Longrightarrow> takeWhile (\<lambda>x. x \<noteq> c) (l @ c # rest) = l"
  by (induction l) auto

lemma dropWhile_upto: "c \<notin> set l \<Longrightarrow> dropWhile (\<lambda>x. x \<noteq> c) (l @ c # rest) = c # rest"
  by (induction l) auto

lemma takeWhile_absent: "c \<notin> set l \<Longrightarrow> takeWhile (\<lambda>x. x \<noteq> c) l = l"
  by (induction l) auto

lemma split_at_first:
  assumes "c \<in> set s"
  shows "s = takeWhile (\<lambda>x. x \<noteq> c) s @ c # tl (dropWhile (\<lambda>x. x \<noteq> c) s)
         \<and> c \<notin> set (takeWhile (\<lambda>x. x \<noteq> c) s)"
  using assms by (induction s) auto

lemma getline_line:
  assumes "good s" and "buf s = l @ LF # rest" and "LF \<notin> set l"
  shows "getline s line = (s\<lparr>buf := rest\<rparr>, l)"
  using assms by (simp add: getline_def takeWhile_upto dropWhile_upto)

lemma getline_last:
  assumes "good s" and "buf s \<noteq> []" and "LF \<notin> set (buf s)"
  shows "getline s line = (s\<lparr>buf := [], eofbit := True\<rparr>, buf s)"
  using assms by (simp add: getline_def)

lemma getline_end:
  assumes "good s" and "buf s = []"
  shows "getline s line = (s\<lparr>eofbit := True, failbit := True\<rparr>, [])"
  using assms by (simp add: getline_def)

lemma getline_not_good:
  assumes "\<not> good s"
  shows "getline s line = (s\<lparr>failbit := True\<rparr>, line)"
  using assms by (simp add: getline_def)

lemma lines_of_Nil: "lines_of [] = []"
  by (simp add: lines_of.simps)

lemma lines_of_line: "LF \<notin> set l \<Longrightarrow> lines_of (l @ LF # rest) = l # lines_of rest"
  by (subst lines_of.simps) (simp add: takeWhile_upto dropWhile_upto)

lemma lines_of_last: "s \<noteq> [] \<Longrightarrow> LF \<notin> set s \<Longrightarrow> lines_of s = [s]"
  by (subst lines_of.simps) (simp add: takeWhile_absent)

lemma parse_headers_not_good:
  "\<not> good s \<Longrightarrow> parse_headers s line hs = Inr (s\<lparr>failbit := True\<rparr>, line, hs)"
  by (subst parse_headers.simps) (simp add: getline_not_good)

lemma parse_headers_lines:
  "good s \<Longrightarrow>
     (case parse_headers s line hs of Inl e \<Rightarrow> Inl e | Inr (s', line', hs') \<Rightarrow> Inr hs')
       = header_lines (lines_of (buf s)) hs"
proof (induction s line hs rule: parse_headers.induct)
  case (1 s line hs)
  note good = \<open>good s\<close>
  consider (empty) "buf s = []"
    | (line) "buf s \<noteq> []" "LF \<in> set (buf s)"
    | (last) "buf s \<noteq> []" "LF \<notin> set (buf s)"
    by blast
  then show ?case
  proof cases
    case empty
    with good show ?thesis
      by (subst parse_headers.simps) (simp add: getline_end lines_of_Nil)
  next
    case line
    define l where "l = takeWhile (\<lambda>c. c \<noteq> LF) (buf s)"
    define rest where "rest = tl (dropWhile (\<lambda>c. c \<noteq> LF) (buf s))"
    from line split_at_first [of LF "buf s"] have b: "buf s = l @ LF # rest" "LF \<notin> set l"
      by (simp_all add: l_def rest_def)
    with good have g: "getline s line = (s\<lparr>buf := rest\<rparr>, l)"
      by (rule getline_line)
    from good have good': "good (s\<lparr>buf := rest\<rparr>)" "\<not> failbit (s\<lparr>buf := rest\<rparr>)"
      by (simp_all add: good_def)
    from b have lo: "lines_of (buf s) = l # lines_of rest"
      by (simp add: lines_of_line)
    show ?thesis
    proof (cases "l = [CR]")
      case True
      with g show ?thesis
        by (subst parse_headers.simps) (simp add: lo)
    next
      case False
      show ?thesis
      proof (cases "header_line l hs")
        case (Inl e)
        with g False good' show ?thesis
          by (subst parse_headers.simps) (simp add: lo)
      next
        case (Inr hs')
        from "1.IH" [OF g [symmetric] _ Inr good'(1)] False good'
        have "(case parse_headers (s\<lparr>buf := rest\<rparr>) l hs' of
                 Inl e \<Rightarrow> Inl e | Inr (s', line', hs') \<Rightarrow> Inr hs')
                = header_lines (lines_of rest) hs'"
          by simp
        with g False good' Inr show ?thesis
          by (subst parse_headers.simps) (simp add: lo)
      qed
    qed
  next
    case last
    with good have g: "getline s line = (s\<lparr>buf := [], eofbit := True\<rparr>, buf s)"
      by (simp add: getline_last)
    have ng: "\<not> good (s\<lparr>buf := [], eofbit := True\<rparr>)"
      by (simp add: good_def)
    from good have nf: "\<not> failbit (s\<lparr>buf := [], eofbit := True\<rparr>)"
      by (simp add: good_def)
    from last g nf show ?thesis
      by (subst parse_headers.simps)
         (simp add: lines_of_last parse_headers_not_good [OF ng] split: sum.splits)
  qed
qed

lemma good_istringstream: "good (istringstream request)" "buf (istringstream request) = request"
  by (simp_all add: good_def istringstream_def)

lemma parseRequest_headers:
  "(case parseRequest request of Inl e \<Rightarrow> Inl e | Inr req \<Rightarrow> Inr (headers req))
     = header_lines (tl (lines_of request)) Map.empty"
proof -
  define s where "s = istringstream request"
  have good: "good s" and b: "buf s = request"
    by (simp_all add: s_def good_istringstream)
  have pr: "parseRequest request =
     (case getline s [] of (stream, line) \<Rightarrow>
        let (m, p, v) = (if \<not> failbit stream then parse_request_line line else ([], [], []))
        in (case parse_headers stream line Map.empty of
              Inl e \<Rightarrow> Inl e
            | Inr (stream', line', hs) \<Rightarrow>
                Inr \<lparr>method' = m, path = p, version = v, headers = hs,
                     body = parse_body stream' line' []\<rparr>))"
    by (simp add: parseRequest_def s_def)
  consider (empty) "request = []"
    | (line) "request \<noteq> []" "LF \<in> set request"
    | (last) "request \<noteq> []" "LF \<notin> set request"
    by blast
  then show ?thesis
  proof cases
    case empty
    with good b have g: "getline s [] = (s\<lparr>eofbit := True, failbit := True\<rparr>, [])"
      by (simp add: getline_end)
    have ng: "\<not> good (s\<lparr>eofbit := True, failbit := True\<rparr>)"
      by (simp add: good_def)
    show ?thesis
      unfolding pr using empty
      by (simp add: g parse_headers_not_good [OF ng] lines_of_Nil)
  next
    case line
    define l where "l = takeWhile (\<lambda>c. c \<noteq> LF) request"
    define rest where "rest = tl (dropWhile (\<lambda>c. c \<noteq> LF) request)"
    from line split_at_first [of LF request] have r: "request = l @ LF # rest" "LF \<notin> set l"
      by (simp_all add: l_def rest_def)
    with good b have g: "getline s [] = (s\<lparr>buf := rest\<rparr>, l)"
      by (simp add: getline_line)
    from good have good': "good (s\<lparr>buf := rest\<rparr>)"
      by (simp add: good_def)
    from parse_headers_lines [OF good', of l Map.empty]
    have "(case parse_headers (s\<lparr>buf := rest\<rparr>) l Map.empty of
             Inl e \<Rightarrow> Inl e | Inr (s', line', hs') \<Rightarrow> Inr hs')
            = header_lines (lines_of rest) Map.empty"
      by simp
    moreover have "lines_of request = l # lines_of rest"
      using r lines_of_line by metis
    ultimately show ?thesis
      unfolding pr by (auto simp: g split: sum.splits prod.splits)
  next
    case last
    with good b have g: "getline s [] = (s\<lparr>buf := [], eofbit := True\<rparr>, request)"
      by (simp add: getline_last)
    have ng: "\<not> good (s\<lparr>buf := [], eofbit := True\<rparr>)"
      by (simp add: good_def)
    show ?thesis
      unfolding pr using last
      by (simp add: g parse_headers_not_good [OF ng] lines_of_last split: prod.splits)
  qed
qed

section \<open>The request line and its tokens\<close>

lemma whitespace_tokens_Nil: "whitespace_tokens [] = []"
  by (simp add: whitespace_tokens.simps)

lemma token_or_empty_tl: "token_or_empty (tl ts) i = token_or_empty ts (Suc i)"
  by (cases ts) (simp_all add: token_or_empty_def)

lemma pending_not_good: "\<not> good s \<Longrightarrow> pending s = []"
  by (simp add: pending_def)

lemma pending_blank: "dropWhile isspace (buf s) = [] \<Longrightarrow> pending s = []"
  by (simp add: pending_def whitespace_tokens.simps [of "buf s"])

lemma pending_token:
  assumes "good s" and "dropWhile isspace (buf s) \<noteq> []"
  shows "pending s =
           takeWhile (\<lambda>c. \<not> isspace c) (dropWhile isspace (buf s)) #
           whitespace_tokens (dropWhile (\<lambda>c. \<not> isspace c) (dropWhile isspace (buf s)))"
  using assms by (simp add: pending_def whitespace_tokens.simps [of "buf s"])

lemma extract_string_not_good:
  "\<not> good s \<Longrightarrow> extract_string s str = (s\<lparr>failbit := True\<rparr>, str)"
  by (simp add: extract_string_def)

lemma extract_string_blank:
  assumes "good s" and "dropWhile isspace (buf s) = []"
  shows "extract_string s str = (s\<lparr>buf := [], eofbit := True, failbit := True\<rparr>, str)"
  using assms by (simp add: extract_string_def del: dropWhile_eq_Nil_conv)

lemma extract_string_token:
  assumes "good s" and "dropWhile isspace (buf s) \<noteq> []"
  shows "extract_string s str =
           (s\<lparr>buf := dropWhile (\<lambda>c. \<not> isspace c) (dropWhile isspace (buf s)),
              eofbit := (dropWhile (\<lambda>c. \<not> isspace c) (dropWhile isspace (buf s)) = [])\<rparr>,
            takeWhile (\<lambda>c. \<not> isspace c) (dropWhile isspace (buf s)))"
  using assms by (simp add: extract_string_def Let_def del: dropWhile_eq_Nil_conv)

lemma extract_string_tokens:
  assumes "extract_string s [] = (s', t)"
  shows "t = token_or_empty (pending s) 0 \<and> pending s' = tl (pending s)"
proof (cases "good s")
  case False
  with assms have "s' = s\<lparr>failbit := True\<rparr>" and "t = []"
    by (simp_all add: extract_string_not_good)
  with False show ?thesis
    by (auto simp: pending_def good_def token_or_empty_def)
next
  case True
  show ?thesis
  proof (cases "dropWhile isspace (buf s) = []")
    case empty: True
    with True assms have s': "s' = s\<lparr>buf := [], eofbit := True, failbit := True\<rparr>"
      and t: "t = []"
      by (simp_all add: extract_string_blank)
    from empty have ps: "pending s = []"
      by (rule pending_blank)
    have "pending s' = []"
      by (simp add: s' pending_def good_def)
    with ps t show ?thesis
      by (simp add: token_or_empty_def)
  next
    case False
    define r where "r = dropWhile (\<lambda>c. \<not> isspace c) (dropWhile isspace (buf s))"
    from True False assms have s': "s' = s\<lparr>buf := r, eofbit := (r = [])\<rparr>"
      and t: "t = takeWhile (\<lambda>c. \<not> isspace c) (dropWhile isspace (buf s))"
      by (simp_all add: extract_string_token r_def)
    have "pending s' = whitespace_tokens r"
    proof (cases "r = []")
      case True
      then show ?thesis
        by (simp add: s' pending_def good_def whitespace_tokens_Nil)
    next
      case False
      with \<open>good s\<close> show ?thesis
        by (simp add: s' pending_def good_def)
    qed
    moreover from True False have "pending s = t # whitespace_tokens r"
      unfolding t r_def by (rule pending_token)
    ultimately show ?thesis
      by (simp add: token_or_empty_def)
  qed
qed

lemma parse_request_line_tokens:
  "parse_request_line line =
     (token_or_empty (whitespace_tokens line) 0,
      token_or_empty (whitespace_tokens line) 1,
      token_or_empty (whitespace_tokens line) 2)"
proof -
  obtain s1 m where e1: "extract_string (istringstream line) [] = (s1, m)"
    by (cases "extract_string (istringstream line) []")
  obtain s2 p where e2: "extract_string s1 [] = (s2, p)"
    by (cases "extract_string s1 []")
  obtain s3 v where e3: "extract_string s2 [] = (s3, v)"
    by (cases "extract_string s2 []")
  have p0: "pending (istringstream line) = whitespace_tokens line"
    by (simp add: pending_def good_istringstream)
  from extract_string_tokens [OF e1] p0
  have m: "m = token_or_empty (whitespace_tokens line) 0"
    and p1: "pending s1 = tl (whitespace_tokens line)"
    by simp_all
  from extract_string_tokens [OF e2] p1
  have p: "p = token_or_empty (whitespace_tokens line) 1"
    and p2: "pending s2 = tl (tl (whitespace_tokens line))"
    by (simp_all add: token_or_empty_tl)
  from extract_string_tokens [OF e3] p2
  have v: "v = token_or_empty (whitespace_tokens line) 2"
    by (simp add: token_or_empty_tl numeral_2_eq_2)
  show ?thesis
    by (simp add: parse_request_line_def e1 e2 e3 m p v)
qed

lemma parse_request_line_Nil: "parse_request_line [] = ([], [], [])"
  by (simp add: parse_request_line_tokens whitespace_tokens_Nil token_or_empty_def)

lemma parseRequest_request_line:
  assumes "parseRequest request = Inr req"
  shows "(method' req, path req, version req)
           = parse_request_line (takeWhile (\<lambda>c. c \<noteq> LF) request)"
proof -
  define s where "s = istringstream request"
  have good: "good s" and b: "buf s = request"
    by (simp_all add: s_def good_istringstream)
  have pr: "parseRequest request =
     (case getline s [] of (stream, line) \<Rightarrow>
        let (m, p, v) = (if \<not> failbit stream then parse_request_line line else ([], [], []))
        in (case parse_headers stream line Map.empty of
              Inl e \<Rightarrow> Inl e
            | Inr (stream', line', hs) \<Rightarrow>
                Inr \<lparr>method' = m, path = p, version = v, headers = hs,
                     body = parse_body stream' line' []\<rparr>))"
    by (simp add: parseRequest_def s_def)
  consider (empty) "request = []"
    | (line) "request \<noteq> []" "LF \<in> set request"
    | (last) "request \<noteq> []" "LF \<notin> set request"
    by blast
  then show ?thesis
  proof cases
    case empty
    with good b have g: "getline s [] = (s\<lparr>eofbit := True, failbit := True\<rparr>, [])"
      by (simp add: getline_end)
    from assms show ?thesis
      unfolding pr using empty
      by (auto simp: g parse_request_line_Nil split: sum.splits prod.splits)
  next
    case line
    define l where "l = takeWhile (\<lambda>c. c \<noteq> LF) request"
    define rest where "rest = tl (dropWhile (\<lambda>c. c \<noteq> LF) request)"
    from line split_at_first [of LF request] have r: "request = l @ LF # rest" "LF \<notin> set l"
      by (simp_all add: l_def rest_def)
    with good b have g: "getline s [] = (s\<lparr>buf := rest\<rparr>, l)"
      by (simp add: getline_line)
    from good have nf: "\<not> failbit s"
      by (simp add: good_def)
    from assms show ?thesis
      unfolding pr l_def [symmetric] using nf
      by (auto simp: g split: sum.splits prod.splits)
  next
    case last
    with good b have g: "getline s [] = (s\<lparr>buf := [], eofbit := True\<rparr>, request)"
      by (simp add: getline_last)
    from good have nf: "\<not> failbit s"
      by (simp add: good_def)
    from assms show ?thesis
      unfolding pr using last nf
      by (auto simp: g takeWhile_absent split: sum.splits prod.splits)
  qed
qed

section \<open>Header lines\<close>

lemma find_colon_at: "CHR '':'' \<notin> set k \<Longrightarrow> find_colon (k @ CHR '':'' # rest) = Some (length k)"
  by (simp add: find_colon_def takeWhile_upto)

lemma find_colon_None: "CHR '':'' \<notin> set line \<Longrightarrow> find_colon line = None"
  by (simp add: find_colon_def)

lemma find_colon_SomeD:
  assumes "find_colon line = Some i"
  shows "\<exists>k rest. line = k @ CHR '':'' # rest \<and> CHR '':'' \<notin> set k \<and> i = length k"
proof -
  from assms have c: "CHR '':'' \<in> set line"
    and i: "i = length (takeWhile (\<lambda>c. c \<noteq> CHR '':'') line)"
    by (auto simp: find_colon_def split: if_splits)
  from split_at_first [OF c] i show ?thesis
    by blast
qed

lemma header_line_no_colon: "CHR '':'' \<notin> set line \<Longrightarrow> header_line line hs = Inr hs"
  by (simp add: header_line_def find_colon_None)

lemma header_line_split:
  assumes "CHR '':'' \<notin> set k"
  shows "header_line (k @ CHR '':'' # c # v) hs
           = Inr (hs(k \<mapsto> (if v \<noteq> [] \<and> last v = CR then butlast v else v)))"
  using assms by (simp add: header_line_def find_colon_at substr_from_def)

lemma header_line_bare_colon:
  assumes "CHR '':'' \<notin> set k"
  shows "header_line (k @ '':'') hs = Inl out_of_range"
  using assms by (simp add: header_line_def find_colon_at substr_from_def)

lemma colon_last_bare: "CHR '':'' \<notin> set k \<Longrightarrow> colon_last (k @ '':'')"
  by (simp add: colon_last_def find_colon_at)

lemma colon_last_more: "CHR '':'' \<notin> set k \<Longrightarrow> \<not> colon_last (k @ CHR '':'' # c # v)"
  by (simp add: colon_last_def find_colon_at)

lemma header_line_raises_iff: "header_line line hs = Inl out_of_range \<longleftrightarrow> colon_last line"
proof (cases "find_colon line")
  case None
  then show ?thesis
    by (simp add: header_line_def colon_last_def)
next
  case (Some i)
  from find_colon_SomeD [OF Some] obtain k rest where
    l: "line = k @ CHR '':'' # rest" and k: "CHR '':'' \<notin> set k"
    by blast
  show ?thesis
  proof (cases rest)
    case Nil
    with k show ?thesis
      unfolding l by (simp add: header_line_bare_colon colon_last_bare)
  next
    case (Cons c v)
    with k show ?thesis
      unfolding l by (simp add: header_line_split colon_last_more)
  qed
qed

lemma header_lines_raises_iff:
  "header_lines ls hs = Inl out_of_range
     \<longleftrightarrow> (\<exists>l \<in> set (takeWhile (\<lambda>l. l \<noteq> [CR]) ls). colon_last l)"
proof (induction ls arbitrary: hs)
  case Nil
  then show ?case by simp
next
  case (Cons l ls)
  show ?case
  proof (cases "l = [CR]")
    case True
    then show ?thesis by simp
  next
    case False
    show ?thesis
    proof (cases "header_line l hs")
      case (Inl e)
      then have hl: "header_line l hs = Inl out_of_range"
        by (cases e) simp
      then have "colon_last l"
        by (simp add: header_line_raises_iff)
      with hl False show ?thesis
        by simp
    next
      case (Inr hs')
      then have "\<not> colon_last l"
        using header_line_raises_iff [of l hs] by simp
      with Inr False Cons.IH [of hs'] show ?thesis by simp
    qed
  qed
qed

lemma parseRequest_raises_iff:
  "parseRequest request = Inl out_of_range \<longleftrightarrow> (\<exists>l \<in> set (header_region request). colon_last l)"
proof -
  have "parseRequest request = Inl out_of_range
          \<longleftrightarrow> header_lines (tl (lines_of request)) Map.empty = Inl out_of_range"
    using parseRequest_headers [of request] by (auto split: sum.splits)
  then show ?thesis
    by (simp add: header_lines_raises_iff header_region_def)
qed

lemma parseRequest_returns_iff:
  "(\<exists>req. parseRequest request = Inr req) \<longleftrightarrow> (\<forall>l \<in> set (header_region request). \<not> colon_last l)"
proof -
  have "(\<exists>req. parseRequest request = Inr req) \<longleftrightarrow> parseRequest request \<noteq> Inl out_of_range"
    by (cases "parseRequest request") (auto intro: error.exhaust)
  then show ?thesis
    by (simp add: parseRequest_raises_iff)
qed

section \<open>Requests with well-formed header lines\<close>

lemma header_text_eq: "header_text kv = key_value_line kv @ [LF]"
  by (simp add: header_text_def)

lemma header_line_well_formed:
  assumes "well_formed_header kv"
  shows "header_line (key_value_line kv) hs = Inr (hs(fst kv \<mapsto> snd kv))"
proof -
  from assms have "CHR '':'' \<notin> set (fst kv)"
    by (simp add: well_formed_header_def)
  from header_line_split [OF this, of "CHR '' ''" "snd kv @ [CR]" hs] show ?thesis
    by (simp add: key_value_line_def)
qed

lemma lines_of_headers:
  assumes "\<forall>kv \<in> set kvs. well_formed_header kv"
  shows "lines_of (concat (map header_text kvs) @ tail) = map key_value_line kvs @ lines_of tail"
  using assms
proof (induction kvs)
  case Nil
  then show ?case by simp
next
  case (Cons kv kvs)
  then have no_lf: "LF \<notin> set (key_value_line kv)"
    by (simp add: well_formed_header_def key_value_line_def)
  from Cons have IH: "lines_of (concat (map header_text kvs) @ tail)
                        = map key_value_line kvs @ lines_of tail"
    by simp
  have "concat (map header_text (kv # kvs)) @ tail
          = key_value_line kv @ LF # (concat (map header_text kvs) @ tail)"
    by (simp add: header_text_eq)
  then have "lines_of (concat (map header_text (kv # kvs)) @ tail)
          = lines_of (key_value_line kv @ LF # (concat (map header_text kvs) @ tail))"
    by (rule arg_cong)
  also have "\<dots> = key_value_line kv # lines_of (concat (map header_text kvs) @ tail)"
    using no_lf by (rule lines_of_line)
  also note IH
  finally show ?case by simp
qed

lemma header_lines_well_formed:
  assumes "\<forall>kv \<in> set kvs. well_formed_header kv"
  shows "header_lines (map key_value_line kvs @ rest) hs
           = header_lines rest (hs ++ map_of (rev kvs))"
  using assms
proof (induction kvs arbitrary: hs)
  case Nil
  then show ?case by simp
next
  case (Cons kv kvs)
  then have wf: "well_formed_header kv" and rest: "\<forall>kv \<in> set kvs. well_formed_header kv"
    by simp_all
  have ne: "key_value_line kv \<noteq> [CR]"
    by (cases "fst kv") (simp_all add: key_value_line_def)
  have "header_lines (map key_value_line (kv # kvs) @ rest) hs
          = header_lines (map key_value_line kvs @ rest) (hs(fst kv \<mapsto> snd kv))"
    using ne by (simp add: header_line_well_formed [OF wf])
  also have "\<dots> = header_lines rest (hs(fst kv \<mapsto> snd kv) ++ map_of (rev kvs))"
    using rest by (rule Cons.IH)
  also have "hs(fst kv \<mapsto> snd kv) ++ map_of (rev kvs) = hs ++ map_of (rev (kv # kvs))"
    by (cases kv) (auto simp: map_add_def fun_eq_iff split: option.splits)
  finally show ?case .
qed

lemma map_of_rev_last:
  assumes "i < length kvs" and "fst (kvs ! i) \<notin> fst ` set (drop (Suc i) kvs)"
  shows "map_of (rev kvs) (fst (kvs ! i)) = Some (snd (kvs ! i))"
proof -
  from assms(1) have "kvs = take i kvs @ kvs ! i # drop (Suc i) kvs"
    by (rule id_take_nth_drop)
  then have "rev kvs = rev (drop (Suc i) kvs) @ kvs ! i # rev (take i kvs)"
    by (metis rev.simps(2) rev_append append.assoc append_Cons append_Nil)
  moreover from assms(2) have "map_of (rev (drop (Suc i) kvs)) (fst (kvs ! i)) = None"
    by (simp add: map_of_eq_None_iff)
  ultimately show ?thesis
    by (cases "kvs ! i") (simp add: map_add_def)
qed


section \<open>Properties of the request parser\<close>

lemma raised_is_out_of_range:
  assumes "case x of Inl e \<Rightarrow> True | Inr q \<Rightarrow> False"
  shows "x = Inl out_of_range"
proof (cases x)
  case (Inl e)
  then show ?thesis by (cases e) simp
next
  case (Inr q)
  with assms show ?thesis by simp
qed

text \<open>
  The parser returns a request exactly when no header line has its first colon as its
  last character (\<open>parseRequest_returns_iff\<close>); on such a line \<open>substr(colon + 2)\<close>
  is called with a position one behind the end of the line and raises.
\<close>

text \<open>
  Claim C4. The parser is to return a request for every input, whatever the shape of a
  header line. On the request line \<open>GET / HTTP/1.1\<close> followed by the header line
  \<open>Host:\<close>, each ended by a line feed, and an empty line, it raises
  \<open>std::out_of_range\<close> instead.
\<close>

theorem parser_raises_on_bare_colon:
  "parseRequest (''GET / HTTP/1.1'' @ [LF] @ ''Host:'' @ [LF, LF]) = Inl out_of_range"
  by (rule raised_is_out_of_range) code_simp

text \<open>
  Claim C5. A request whose header section is \<open>N\<close> well-formed lines \<open>Key: Value\<close>,
  ended by the empty line or by the end of the data, parses to a request whose headers
  are the keys of those lines, each with the value of its last line: as many entries as
  there are distinct keys, \<open>N\<close> when the keys are distinct.
\<close>

theorem headers_of_well_formed_request:
  assumes "LF \<notin> set first"
    and "\<forall>kv \<in> set kvs. well_formed_header kv"
    and "tail = [] \<or> (\<exists>b. tail = CR # LF # b)"
  shows "\<exists>req. parseRequest (first @ LF # concat (map header_text kvs) @ tail) = Inr req
           \<and> headers req = map_of (rev kvs)
           \<and> card (dom (headers req)) = card (set (map fst kvs))
           \<and> (distinct (map fst kvs) \<longrightarrow> card (dom (headers req)) = length kvs)
           \<and> (\<forall>i < length kvs. fst (kvs ! i) \<notin> fst ` set (drop (Suc i) kvs) \<longrightarrow>
                 headers req (fst (kvs ! i)) = Some (snd (kvs ! i)))"
proof -
  let ?request = "first @ LF # concat (map header_text kvs) @ tail"
  from assms(3) have tail: "header_lines (lines_of tail) (map_of (rev kvs)) = Inr (map_of (rev kvs))"
  proof
    assume "tail = []"
    then show ?thesis by (simp add: lines_of_Nil)
  next
    assume "\<exists>b. tail = CR # LF # b"
    then obtain b where "tail = [CR] @ LF # b" by auto
    then show ?thesis
      using lines_of_line [of "[CR]" b] by simp
  qed
  from assms(1) have "lines_of ?request = first # lines_of (concat (map header_text kvs) @ tail)"
    by (rule lines_of_line)
  with assms(2) have "header_lines (tl (lines_of ?request)) Map.empty = Inr (map_of (rev kvs))"
    by (simp add: lines_of_headers header_lines_well_formed tail)
  with parseRequest_headers [of ?request]
  obtain req where req: "parseRequest ?request = Inr req" "headers req = map_of (rev kvs)"
    by (cases "parseRequest ?request") auto
  have dom: "dom (map_of (rev kvs)) = set (map fst kvs)"
    by (simp add: dom_map_of_conv_image_fst)
  from req dom show ?thesis
    by (auto simp: distinct_card map_of_rev_last simp del: set_map)
qed

theorem headers_of_well_formed_request_witness:
  "(\<exists>req. parseRequest (''GET / HTTP/1.1'' @ [CR] @ LF #
              concat (map header_text [(''Host'', ''x''), (''Accept'', ''*/*'')]) @ [])
            = Inr req
          \<and> headers req = [''Host'' \<mapsto> ''x'', ''Accept'' \<mapsto> ''*/*'']
          \<and> card (dom (headers req)) = 2)
   \<and> (\<exists>req. parseRequest (''GET / HTTP/1.1'' @ [CR] @ LF #
              concat (map header_text [(''Host'', ''x''), (''Accept'', ''*/*''), (''Host'', ''y: z'')])
              @ CR # LF # ''body'')
            = Inr req
          \<and> card (dom (headers req)) = 2
          \<and> headers req ''Host'' = Some ''y: z''
          \<and> headers req ''Accept'' = Some ''*/*'')"
proof -
  let ?kvs1 = "[(''Host'', ''x''), (''Accept'', ''*/*'')]"
  let ?kvs2 = "[(''Host'', ''x''), (''Accept'', ''*/*''), (''Host'', ''y: z'')]"
  have wf1: "\<forall>kv \<in> set ?kvs1. well_formed_header kv"
    and wf2: "\<forall>kv \<in> set ?kvs2. well_formed_header kv"
    by (simp_all add: well_formed_header_def)
  have first: "LF \<notin> set (''GET / HTTP/1.1'' @ [CR])"
    by simp
  from headers_of_well_formed_request [OF first wf1, of "[]"]
  have one: "\<exists>req. parseRequest (''GET / HTTP/1.1'' @ [CR] @ LF #
              concat (map header_text ?kvs1) @ []) = Inr req
          \<and> headers req = [''Host'' \<mapsto> ''x'', ''Accept'' \<mapsto> ''*/*'']
          \<and> card (dom (headers req)) = 2"
    by (auto simp: fun_upd_twist)
  from headers_of_well_formed_request [OF first wf2, of "CR # LF # ''body''"]
  obtain req where req: "parseRequest (''GET / HTTP/1.1'' @ [CR] @ LF #
              concat (map header_text ?kvs2) @ CR # LF # ''body'') = Inr req"
    and h: "headers req = map_of (rev ?kvs2)"
    and c: "card (dom (headers req)) = card (set (map fst ?kvs2))"
    by auto
  from c have "card (dom (headers req)) = 2"
    by (simp add: card_insert_if)
  moreover from h have "headers req ''Host'' = Some ''y: z''" "headers req ''Accept'' = Some ''*/*''"
    by simp_all
  ultimately show ?thesis
    using one req by blast
qed

text \<open>
  A header line with a character behind its first colon is split there: the key is the
  text before the colon, the value starts two characters behind it and loses one
  carriage return at its end. A line without a colon changes nothing
  (\<open>header_line_no_colon\<close>), and the headers of the request are those of the lines of
  the header region, taken in order.
\<close>

lemma header_line_at_first_colon:
  assumes "find_colon line = Some i" and "i + 2 \<le> length line"
  shows "header_line line hs =
           Inr (hs(take i line \<mapsto>
                  (if drop (i + 2) line \<noteq> [] \<and> last (drop (i + 2) line) = CR
                   then butlast (drop (i + 2) line) else drop (i + 2) line)))"
  using assms by (simp add: header_line_def substr_from_def Let_def)

lemma header_lines_region:
  "header_lines (takeWhile (\<lambda>l. l \<noteq> [CR]) ls) hs = header_lines ls hs"
  by (induction ls arbitrary: hs) (simp_all split: sum.splits)

lemma parseRequest_header_region:
  "(case parseRequest request of Inl e \<Rightarrow> Inl e | Inr req \<Rightarrow> Inr (headers req))
     = header_lines (header_region request) Map.empty"
  by (simp add: parseRequest_headers header_region_def header_lines_region)

text \<open>
  Claim C6. Every header line with a colon is to give a key and a value. The line
  \<open>Accept:\<close>, whose first colon at index 6 is its last character, gives none: it
  raises \<open>std::out_of_range\<close>, and so does the parser on a request with this header
  line.
\<close>

theorem header_line_raises_on_bare_colon:
  "find_colon ''Accept:'' = Some 6
   \<and> header_line ''Accept:'' Map.empty = Inl out_of_range
   \<and> header_region (''GET / HTTP/1.1'' @ [CR, LF] @ ''Accept:'') = [''Accept:'']
   \<and> parseRequest (''GET / HTTP/1.1'' @ [CR, LF] @ ''Accept:'') = Inl out_of_range"
proof -
  have c: "find_colon ''Accept:'' = Some 6"
    by (simp add: find_colon_def)
  have h: "header_line ''Accept:'' Map.empty = Inl out_of_range"
    using header_line_bare_colon [of "''Accept''" Map.empty] by simp
  have r: "header_region (''GET / HTTP/1.1'' @ [CR, LF] @ ''Accept:'') = [''Accept:'']"
    by code_simp
  have p: "parseRequest (''GET / HTTP/1.1'' @ [CR, LF] @ ''Accept:'') = Inl out_of_range"
    by (rule raised_is_out_of_range) code_simp
  from c h r p show ?thesis by blast
qed

text \<open>
  The request line fills method, path and version with its first three tokens, in order,
  and leaves a field empty when the line has no token for it, in every request on which
  the parser returns.
\<close>

lemma token_or_empty_beyond: "length ts \<le> i \<Longrightarrow> token_or_empty ts i = []"
  by (simp add: token_or_empty_def)

lemma request_line_fields:
  assumes "\<forall>l \<in> set (header_region request). \<not> colon_last l"
  shows "\<exists>req. parseRequest request = Inr req
           \<and> method' req = token_or_empty (whitespace_tokens (takeWhile (\<lambda>c. c \<noteq> LF) request)) 0
           \<and> path req = token_or_empty (whitespace_tokens (takeWhile (\<lambda>c. c \<noteq> LF) request)) 1
           \<and> version req = token_or_empty (whitespace_tokens (takeWhile (\<lambda>c. c \<noteq> LF) request)) 2"
proof -
  from assms obtain req where req: "parseRequest request = Inr req"
    using parseRequest_returns_iff [of request] by blast
  from parseRequest_request_line [OF req] req show ?thesis
    by (simp add: parse_request_line_tokens)
qed

text \<open>
  Claim C7. A request whose first line has fewer than three tokens is to be parsed
  without an exception. The first line \<open>GET\<close> has one token, and the parser raises
  \<open>std::out_of_range\<close> on the request made of this line and the header line \<open>X:\<close>.
\<close>

theorem parser_raises_behind_short_request_line:
  "whitespace_tokens ''GET'' = [''GET'']
   \<and> parseRequest (''GET'' @ [LF] @ ''X:'') = Inl out_of_range"
proof -
  have "whitespace_tokens ''GET'' = [''GET'']"
    by code_simp
  moreover have "parseRequest (''GET'' @ [LF] @ ''X:'') = Inl out_of_range"
    by (rule raised_is_out_of_range) code_simp
  ultimately show ?thesis by blast
qed

section \<open>Properties of the response builder\<close>

text \<open>
  Claim C3. For every status code, status message, body and content type the response
  builder returns exactly: the status line \<open>HTTP/1.1 <code> <message>\<close>, the
  \<open>Content-Type\<close> header, the \<open>Content-Length\<close> header, \<open>Connection: close\<close>, each
  ended by CR LF, an empty line, and the body with nothing behind it. The code is written
  in decimal and reads back as the status code; the value of \<open>Content-Length\<close> reads back
  as the number of bytes of the body.
\<close>

theorem createResponse_bytes:
  "createResponse status_code status_msg content content_type =
     ''HTTP/1.1 '' @ show_int status_code @ '' '' @ status_msg @ [CR, LF] @
     ''Content-Type: '' @ content_type @ [CR, LF] @
     ''Content-Length: '' @ show_nat (length content) @ [CR, LF] @
     ''Connection: close'' @ [CR, LF] @
     [CR, LF] @
     content
   \<and> read_int (show_int status_code) = Some status_code
   \<and> read_nat (show_nat (length content)) = Some (length content)"
  by (simp add: createResponse_def read_int_show_int read_nat_show_nat)

theorem createResponse_bytes_witness:
  "createResponse 200 ''OK'' ''hello'' ''text/html'' =
     ''HTTP/1.1 200 OK'' @ [CR, LF] @
     ''Content-Type: text/html'' @ [CR, LF] @
     ''Content-Length: 5'' @ [CR, LF] @
     ''Connection: close'' @ [CR, LF] @
     [CR, LF] @
     ''hello''
   \<and> read_int ''200'' = Some 200
   \<and> read_nat ''5'' = Some 5"
proof -
  have len: "length ''hello'' = 5" by simp
  from createResponse_bytes [of 200 "''OK''" "''hello''" "''text/html''"]
  show ?thesis
    unfolding len show_nat_5 show_int_200 by simp
qed

section \<open>Properties of the route table\<close>

text \<open>
  Claim C8. Registration and lookup go by equality of the whole path: a second
  registration of a path replaces the first one (registering \<open>h1\<close> and then \<open>h2\<close> is
  registering \<open>h2\<close>), a lookup of the registered path finds the handler, the entry of
  every other path is left as it was, and \<open>/about\<close> and \<open>/about/\<close> do not touch each
  other.
\<close>

theorem route_table_exact_match:
  "addRoute (addRoute rts p h1) p h2 = addRoute rts p h2
   \<and> addRoute rts p h p = Some h
   \<and> (q \<noteq> p \<longrightarrow> addRoute rts p h q = rts q)
   \<and> addRoute rts ''/about'' h ''/about/'' = rts ''/about/''
   \<and> addRoute rts ''/about/'' h ''/about'' = rts ''/about''"
  by (simp add: addRoute_def)

theorem route_table_exact_match_witness:
  "addRoute (addRoute Map.empty ''/about'' (\<lambda>_. ''one'')) ''/about'' (\<lambda>_. ''two'')
     = addRoute Map.empty ''/about'' (\<lambda>_. ''two'')
   \<and> addRoute Map.empty ''/about'' (\<lambda>_. ''two'') ''/about'' = Some (\<lambda>_. ''two'')
   \<and> addRoute Map.empty ''/about'' (\<lambda>_. ''two'') ''/about/'' = None"
  using route_table_exact_match
    [of Map.empty "''/about''" "\<lambda>_. ''one''" "\<lambda>_. ''two''" "\<lambda>_. ''two''" "''/about/''"]
  by simp

section \<open>Properties of the connection handler\<close>

lemma request_str_nul: "NUL \<notin> set pre \<Longrightarrow> request_str (recv_data (pre @ NUL # post)) = pre"
  by (auto simp: request_str_def c_string_def takeWhile_tail)

lemma request_str_no_nul: "NUL \<notin> set bs \<Longrightarrow> request_str (recv_data bs) = bs"
  by (auto simp: request_str_def c_string_def takeWhile_tail)

text \<open>
  Claim C1. When the path \<open>P\<close> is registered with the handler \<open>H\<close>, the read delivered
  bytes and the request parses to a request of path \<open>P\<close>, the handler sends one response,
  built from status code 200, status message \<open>OK\<close>, the body \<open>H\<close> applied to the
  parsed headers and content type \<open>text/html\<close>, and closes the socket.
\<close>

theorem registered_path_served:
  assumes "rts P = Some H"
    and "0 < bytes_received r"
    and "parseRequest (request_str r) = Inr req"
    and "path req = P"
  shows "handleClient rts r sock =
           (Inr (), sock\<lparr>sent := sent sock @ [createResponse 200 ''OK'' (H (headers req)) ''text/html''],
                         closes := closes sock + 1\<rparr>)"
  using assms by (simp add: handleClient_def send_def closeSocket_def)

theorem registered_path_served_witness:
  "handleClient
     [''/'' \<mapsto> (\<lambda>h. case h ''Host'' of None \<Rightarrow> ''hello'' | Some v \<Rightarrow> ''hello '' @ v)]
     (recv_data (''GET / HTTP/1.1'' @ [CR, LF] @ ''Host: x'' @ [CR, LF] @ [CR, LF]))
     \<lparr>sent = [], closes = 0\<rparr>
   = (Inr (), \<lparr>sent = [createResponse 200 ''OK'' ''hello x'' ''text/html''], closes = 1\<rparr>)"
proof -
  let ?bytes = "''GET / HTTP/1.1'' @ [CR, LF] @ ''Host: x'' @ [CR, LF] @ [CR, LF]"
  let ?H = "\<lambda>h :: headers. case h ''Host'' of None \<Rightarrow> ''hello'' | Some v \<Rightarrow> ''hello '' @ v"
  have str: "request_str (recv_data ?bytes) = ?bytes"
    by (rule request_str_no_nul) simp
  have "case parseRequest ?bytes of Inl e \<Rightarrow> False
        | Inr q \<Rightarrow> path q = ''/'' \<and> headers q ''Host'' = Some ''x''"
    by code_simp
  then obtain req where req: "parseRequest ?bytes = Inr req" "path req = ''/''"
      "headers req ''Host'' = Some ''x''"
    by (cases "parseRequest ?bytes") auto
  from registered_path_served [of "[''/'' \<mapsto> ?H]" "''/''" ?H "recv_data ?bytes" req
      "\<lparr>sent = [], closes = 0\<rparr>"] str req
  show ?thesis by simp
qed

text \<open>
  Claim C2. When the path \<open>P\<close> is not registered, the read delivered bytes and the
  request parses to a request of path \<open>P\<close>, the handler sends one response, built from
  status code 404, status message \<open>Not Found\<close> and a body that is a fixed text around
  the path \<open>P\<close> as it was received.
\<close>

theorem unregistered_path_not_found:
  assumes "rts P = None"
    and "0 < bytes_received r"
    and "parseRequest (request_str r) = Inr req"
    and "path req = P"
  shows "handleClient rts r sock =
           (Inr (), sock\<lparr>sent := sent sock @ [createResponse 404 ''Not Found'' (not_found_page P) ''text/html''],
                         closes := closes sock + 1\<rparr>)
         \<and> not_found_page P =
             ''<!DOCTYPE html><html><head><title>404 Not Found</title></head><body><h1>404 Not Found</h1><p>The requested URL ''
             @ P @ '' was not found on this server.</p></body></html>''"
  using assms by (simp add: handleClient_def send_def closeSocket_def not_found_page_def)

theorem unregistered_path_not_found_witness:
  "handleClient [''/'' \<mapsto> (\<lambda>_. ''hello'')]
     (recv_data (''GET /missing HTTP/1.1'' @ [CR, LF] @ [CR, LF]))
     \<lparr>sent = [], closes = 0\<rparr>
   = (Inr (), \<lparr>sent = [createResponse 404 ''Not Found'' (not_found_page ''/missing'') ''text/html''],
                closes = 1\<rparr>)
   \<and> not_found_page ''/missing'' =
       ''<!DOCTYPE html><html><head><title>404 Not Found</title></head><body><h1>404 Not Found</h1><p>The requested URL /missing was not found on this server.</p></body></html>''"
proof -
  let ?bytes = "''GET /missing HTTP/1.1'' @ [CR, LF] @ [CR, LF]"
  have str: "request_str (recv_data ?bytes) = ?bytes"
    by (rule request_str_no_nul) simp
  have "case parseRequest ?bytes of Inl e \<Rightarrow> False | Inr q \<Rightarrow> path q = ''/missing''"
    by code_simp
  then obtain req where req: "parseRequest ?bytes = Inr req" "path req = ''/missing''"
    by (cases "parseRequest ?bytes") auto
  from unregistered_path_not_found [of "[''/'' \<mapsto> (\<lambda>_. ''hello'')]" "''/missing''"
      "recv_data ?bytes" req "\<lparr>sent = [], closes = 0\<rparr>"] str req
  show ?thesis by simp
qed

text \<open>
  When the read delivers no byte, the handler sends nothing and closes the socket once;
  when the parser returns, it sends one response and closes the socket once. When the
  parser raises, the exception leaves the handler before line 154.
\<close>

lemma handleClient_empty_read:
  "bytes_received r \<le> 0 \<Longrightarrow> handleClient rts r sock = (Inr (), sock\<lparr>closes := closes sock + 1\<rparr>)"
  by (simp add: handleClient_def closeSocket_def)

lemma handleClient_parsed:
  assumes "0 < bytes_received r" and "parseRequest (request_str r) = Inr req"
  shows "handleClient rts r sock =
           (Inr (),
            sock\<lparr>sent := sent sock @
                     [case rts (path req) of
                        Some h \<Rightarrow> createResponse 200 ''OK'' (h (headers req)) ''text/html''
                      | None \<Rightarrow> createResponse 404 ''Not Found'' (not_found_page (path req))
                                 ''text/html''],
                 closes := closes sock + 1\<rparr>)"
  using assms
  by (cases "rts (path req)") (simp_all add: handleClient_def send_def closeSocket_def)

lemma handleClient_raised:
  assumes "0 < bytes_received r" and "parseRequest (request_str r) = Inl e"
  shows "handleClient rts r sock = (Inl e, sock)"
  using assms by (simp add: handleClient_def)

lemma handleClient_returned_closes_once:
  assumes "handleClient rts r sock = (Inr (), sock')"
  shows "closes sock' = closes sock + 1"
proof (cases "0 < bytes_received r")
  case False
  with assms handleClient_empty_read [of r rts sock] show ?thesis by auto
next
  case True
  show ?thesis
  proof (cases "parseRequest (request_str r)")
    case (Inl e)
    with True assms show ?thesis by (simp add: handleClient_raised)
  next
    case (Inr req)
    from handleClient_parsed [OF True Inr, of rts sock] assms show ?thesis by auto
  qed
qed

text \<open>
  Claim C9. The socket is to be closed exactly once on every connection. On the 21 bytes
  \<open>GET / HTTP/1.1\<close>, CR, LF, \<open>Host:\<close> the exception of the parser leaves the handler:
  nothing is sent and the socket is not closed.
\<close>

theorem handler_leaves_socket_open_on_exception:
  "bytes_received (recv_data (''GET / HTTP/1.1'' @ [CR, LF] @ ''Host:'')) = 21
   \<and> handleClient rts (recv_data (''GET / HTTP/1.1'' @ [CR, LF] @ ''Host:'')) sock
       = (Inl out_of_range, sock)"
proof -
  let ?bytes = "''GET / HTTP/1.1'' @ [CR, LF] @ ''Host:''"
  have "request_str (recv_data ?bytes) = ?bytes"
    by (rule request_str_no_nul) simp
  moreover have "parseRequest ?bytes = Inl out_of_range"
    by (rule raised_is_out_of_range) code_simp
  ultimately have "handleClient rts (recv_data ?bytes) sock = (Inl out_of_range, sock)"
    by (simp add: handleClient_raised)
  then show ?thesis by simp
qed

text \<open>
  Claim C10. When the bytes read contain a NUL, the request string is the bytes before the
  first NUL: what follows it has no influence on what the handler does, and when a byte
  stands before it the handler does what it does on those bytes alone.
\<close>

theorem nul_truncates_request:
  assumes "NUL \<notin> set pre"
  shows "request_str (recv_data (pre @ NUL # post)) = pre
         \<and> handleClient rts (recv_data (pre @ NUL # post)) sock
             = handleClient rts (recv_data (pre @ NUL # post')) sock
         \<and> (pre \<noteq> [] \<longrightarrow>
              handleClient rts (recv_data (pre @ NUL # post)) sock
                = handleClient rts (recv_data pre) sock)"
  using assms by (simp add: handleClient_def request_str_nul request_str_no_nul)

theorem nul_truncates_request_witness:
  "request_str (recv_data (''GET / HTTP/1.1'' @ [CR, LF] @ NUL # ''Host: x'' @ [CR, LF, CR, LF]))
     = ''GET / HTTP/1.1'' @ [CR, LF]
   \<and> handleClient Map.empty
         (recv_data (''GET / HTTP/1.1'' @ [CR, LF] @ NUL # ''Host: x'' @ [CR, LF, CR, LF]))
         \<lparr>sent = [], closes = 0\<rparr>
       = handleClient Map.empty (recv_data (''GET / HTTP/1.1'' @ [CR, LF] @ NUL # []))
           \<lparr>sent = [], closes = 0\<rparr>
   \<and> handleClient Map.empty
         (recv_data (''GET / HTTP/1.1'' @ [CR, LF] @ NUL # ''Host: x'' @ [CR, LF, CR, LF]))
         \<lparr>sent = [], closes = 0\<rparr>
       = handleClient Map.empty (recv_data (''GET / HTTP/1.1'' @ [CR, LF]))
           \<lparr>sent = [], closes = 0\<rparr>"
  using nul_truncates_request [of "''GET / HTTP/1.1'' @ [CR, LF]" "''Host: x'' @ [CR, LF, CR, LF]"
      Map.empty "\<lparr>sent = [], closes = 0\<rparr>" "[]"]
  by auto

end
